theory Spec2Isabelle
  imports Main "HOL-Library.Word" "HOL-Library.AList" "HOL-Library.Multiset"
begin

section \<open>Alert filters and kvdb key derivation (alerts/filter.go)\<close>

subsection \<open>Data model\<close>

text \<open>
  Go's \<^verbatim>\<open>int64\<close> is a 64-bit word read as two's complement; the code only compares such values and
  prints them, so \<open>sint\<close> reads them where the order or the digits matter.
  \<^verbatim>\<open>FilterType\<close> is a Go \<^verbatim>\<open>int\<close> that is only compared, modelled as \<open>int\<close>.
\<close>

type_synonym int64 = "64 word"

type_synonym FilterType = int

definition CustomFilter :: FilterType where "CustomFilter = 0"
definition TimeFilter :: FilterType where "TimeFilter = 1"
definition AlertTypeFilter :: FilterType where "AlertTypeFilter = 2"
definition ResourceIDFilter :: FilterType where "ResourceIDFilter = 3"
definition CountFilter :: FilterType where "CountFilter = 4"
definition QueryResourceTypeFilter :: FilterType where "QueryResourceTypeFilter = 5"
definition QueryAlertTypeFilter :: FilterType where "QueryAlertTypeFilter = 6"
definition QueryResourceIDFilter :: FilterType where "QueryResourceIDFilter = 7"

lemmas FilterType_defs =
  CustomFilter_def TimeFilter_def AlertTypeFilter_def ResourceIDFilter_def CountFilter_def
  QueryResourceTypeFilter_def QueryAlertTypeFilter_def QueryResourceIDFilter_def

text \<open>
  Modelled from the spec: the error values \<^verbatim>\<open>typeAssertionError\<close> (the spec's
  ValueShapeMismatch) and \<^verbatim>\<open>invalidFilterType\<close> (UnknownFilterKind) are package
  variables declared outside src. \<open>otherError\<close> stands for any other Go error value,
  as a caller-supplied predicate may return.
\<close>

datatype error = typeAssertionError | invalidFilterType | otherError string

text \<open>
  \<^verbatim>\<open>time.Time\<close> is read only through \<^verbatim>\<open>Unix()\<close>, the whole seconds since the epoch.
\<close>

record Time =
  sec :: int64
  nsec :: "32 word"

definition Unix :: "Time \<Rightarrow> int64" where
  "Unix t = sec t"

record timeZone =
  start :: Time
  stop :: Time

text \<open>
  Modelled from the spec: \<^verbatim>\<open>api.Alert\<close>, its timestamp and \<^verbatim>\<open>api.ResourceType\<close> are
  declared outside src. The record has the fields the spec lists (identifier, alert type,
  resource type, resource id, occurrence count, timestamp); the resource type stays a type
  parameter \<open>'r\<close>, and its \<^verbatim>\<open>String()\<close> method is a parameter of key derivation.
\<close>

record ProtoTimestamp =
  Seconds :: int64
  Nanos :: "32 word"

record 'r Alert =
  Id :: int64
  AlertType :: int64
  Resource :: 'r
  ResourceId :: string
  Count :: int64
  Timestamp :: ProtoTimestamp

record 'r alertInfo =
  alertType :: int64
  resourceType :: 'r
  resourceID :: string

text \<open>
  The payload is an \<^verbatim>\<open>interface{}\<close>: one constructor for each dynamic type the code
  asserts, and \<open>OtherValue\<close> for every other dynamic type (nil included). A predicate
  receives a pointer to the alert, so it returns the alert as it leaves it.
\<close>

datatype 'r Value =
    FuncValue "'r Alert \<Rightarrow> 'r Alert \<times> bool \<times> error option"
  | TimeZoneValue timeZone
  | Int64Value int64
  | StringValue string
  | ResourceTypeValue 'r
  | AlertInfoValue "'r alertInfo"
  | OtherValue

record 'r filter =
  filterType :: FilterType
  filterValue :: "'r Value"

definition GetFilterType :: "'r filter \<Rightarrow> FilterType" where
  "GetFilterType f = filterType f"

definition GetValue :: "'r filter \<Rightarrow> 'r Value" where
  "GetValue f = filterValue f"

subsection \<open>Match\<close>

text \<open>
  The result is the alert after the call and Go's pair \<^verbatim>\<open>(bool, error)\<close>; \<open>None\<close> is
  the nil error.
\<close>

definition Match :: "'r filter \<Rightarrow> 'r Alert \<Rightarrow> 'r Alert \<times> bool \<times> error option" where
  "Match f alert =
    (if filterType f = CustomFilter then
       (case filterValue f of
          FuncValue v \<Rightarrow> v alert
        | _ \<Rightarrow> (alert, False, Some typeAssertionError))
     else if filterType f = TimeFilter then
       (case filterValue f of
          TimeZoneValue v \<Rightarrow>
            (if sint (Unix (start v)) \<le> sint (Seconds (Timestamp alert)) \<and>
                sint (Seconds (Timestamp alert)) \<le> sint (Unix (stop v))
             then (alert, True, None) else (alert, False, None))
        | _ \<Rightarrow> (alert, False, Some typeAssertionError))
     else if filterType f = AlertTypeFilter then
       (case filterValue f of
          Int64Value v \<Rightarrow>
            (if AlertType alert = v then (alert, True, None) else (alert, False, None))
        | _ \<Rightarrow> (alert, False, Some typeAssertionError))
     else if filterType f = ResourceIDFilter then
       (case filterValue f of
          StringValue v \<Rightarrow>
            (if ResourceId alert = v then (alert, True, None) else (alert, False, None))
        | _ \<Rightarrow> (alert, False, Some typeAssertionError))
     else if filterType f = CountFilter then
       (case filterValue f of
          Int64Value v \<Rightarrow>
            (if Count alert = v then (alert, True, None) else (alert, False, None))
        | _ \<Rightarrow> (alert, False, Some typeAssertionError))
     else if filterType f = QueryResourceTypeFilter then
       (case filterValue f of
          ResourceTypeValue v \<Rightarrow>
            (if Resource alert = v then (alert, True, None) else (alert, False, None))
        | _ \<Rightarrow> (alert, False, Some typeAssertionError))
     else if filterType f = QueryAlertTypeFilter then
       (case filterValue f of
          AlertInfoValue v \<Rightarrow>
            (if AlertType alert = alertType v \<and> Resource alert = resourceType v
             then (alert, True, None) else (alert, False, None))
        | _ \<Rightarrow> (alert, False, Some typeAssertionError))
     else if filterType f = QueryResourceIDFilter then
       (case filterValue f of
          AlertInfoValue v \<Rightarrow>
            (if AlertType alert = alertType v \<and> Resource alert = resourceType v \<and>
                ResourceId alert = resourceID v
             then (alert, True, None) else (alert, False, None))
        | _ \<Rightarrow> (alert, False, Some typeAssertionError))
     else (alert, False, Some invalidFilterType))"

subsection \<open>Strings and paths of the Go standard library\<close>

text \<open>
  The functions of \<^verbatim>\<open>strings\<close>, \<^verbatim>\<open>strconv\<close> and \<^verbatim>\<open>path/filepath\<close> (Unix) that
  filter.go calls, after their documented behaviour. A Go string is a byte sequence.
\<close>

fun stringsJoin :: "string list \<Rightarrow> string \<Rightarrow> string" where
  "stringsJoin [] sep = []"
| "stringsJoin [e] sep = e"
| "stringsJoin (e # es) sep = e @ sep @ stringsJoin es sep"

text \<open>
  \<^verbatim>\<open>strings.Trim(s, cutset)\<close>: the trailing, then the leading bytes of the cutset
  removed.
\<close>

definition TrimLeft :: "string \<Rightarrow> string \<Rightarrow> string" where
  "TrimLeft s cutset = dropWhile (\<lambda>c. c \<in> set cutset) s"

definition TrimRight :: "string \<Rightarrow> string \<Rightarrow> string" where
  "TrimRight s cutset = rev (dropWhile (\<lambda>c. c \<in> set cutset) (rev s))"

definition Trim :: "string \<Rightarrow> string \<Rightarrow> string" where
  "Trim s cutset = TrimLeft (TrimRight s cutset) cutset"

text \<open>
  \<^verbatim>\<open>strconv.FormatInt(i, base)\<close>: the digits of the magnitude, most significant first,
  after a minus sign for a negative number. Go panics on a base outside 2..36; the
  only call passes 16.
\<close>

definition digitChar :: "nat \<Rightarrow> char" where
  "digitChar d = ''0123456789abcdefghijklmnopqrstuvwxyz'' ! d"

function formatBits :: "nat \<Rightarrow> nat \<Rightarrow> string" where
  "formatBits u base =
     (if base < 2 \<or> u < base then [digitChar u]
      else formatBits (u div base) base @ [digitChar (u mod base)])"
  by pat_completeness auto
termination
  by (relation "measure (\<lambda>(u, base). u)") auto

declare formatBits.simps [simp del]

definition FormatInt :: "int \<Rightarrow> nat \<Rightarrow> string" where
  "FormatInt i base =
     (if i < 0 then CHR ''-'' # formatBits (nat (- i)) base else formatBits (nat i) base)"

text \<open>The elements of a path between its separators (empty ones included).\<close>

fun pathElems :: "string \<Rightarrow> string list" where
  "pathElems [] = [[]]"
| "pathElems (c # cs) =
     (if c = CHR ''/'' then [] # pathElems cs
      else (case pathElems cs of [] \<Rightarrow> [[c]] | e # es \<Rightarrow> (c # e) # es))"

text \<open>
  \<^verbatim>\<open>filepath.Clean\<close> reads the path element by element and keeps the output built so
  far, here as the list of its elements, last one first: an empty element and \<open>.\<close> are
  dropped; \<open>..\<close> removes the last real element, or is kept at the front of a path
  that is not rooted, or is dropped at the root.
\<close>

fun cleanElems :: "bool \<Rightarrow> string list \<Rightarrow> string list \<Rightarrow> string list" where
  "cleanElems rooted out [] = out"
| "cleanElems rooted out (e # es) =
     (if e = [] \<or> e = ''.'' then cleanElems rooted out es
      else if e = ''..'' then
        (if out \<noteq> [] \<and> hd out \<noteq> ''..'' then cleanElems rooted (tl out) es
         else if \<not> rooted then cleanElems rooted (''..'' # out) es
         else cleanElems rooted out es)
      else cleanElems rooted (e # out) es)"

definition Clean :: "string \<Rightarrow> string" where
  "Clean path =
     (if path = [] then ''.''
      else
        (let rooted = (hd path = CHR ''/'');
             out = rev (cleanElems rooted [] (pathElems path))
         in if rooted then CHR ''/'' # stringsJoin out ''/''
            else if out = [] then ''.''
            else stringsJoin out ''/''))"

text \<open>
  \<^verbatim>\<open>filepath.Join\<close>: the elements from the first non-empty one on, joined by the
  separator and cleaned; the empty string when every element is empty.
\<close>

definition Join :: "string list \<Rightarrow> string" where
  "Join elem =
     (case dropWhile (\<lambda>e. e = []) elem of
        [] \<Rightarrow> []
      | es \<Rightarrow> Clean (stringsJoin es ''/''))"

text \<open>\<^verbatim>\<open>filepath.Split\<close>: the path cut after its last separator.\<close>

definition Split :: "string \<Rightarrow> string \<times> string" where
  "Split path =
     (rev (dropWhile (\<lambda>c. c \<noteq> CHR ''/'') (rev path)),
      rev (takeWhile (\<lambda>c. c \<noteq> CHR ''/'') (rev path)))"

subsection \<open>Key derivation\<close>

text \<open>
  Modelled from the spec: the constant \<^verbatim>\<open>KvdbKey\<close> is declared outside src. The spec
  calls it the fixed namespace root; the comment on the kvdb tree in filter.go spells
  it \<open>alerts\<close>.
\<close>

definition KvdbKey :: string where
  "KvdbKey = ''alerts''"

text \<open>
  The Go map \<^verbatim>\<open>map[string]bool\<close> as an association list with distinct keys. Reading
  a key that is absent gives \<open>false\<close>. Go ranges over a map in no fixed order; the
  model ranges in list order, and the map that results does not depend on it.
\<close>

type_synonym keymap = "(string \<times> bool) list"

definition lookupKey :: "keymap \<Rightarrow> string \<Rightarrow> bool" where
  "lookupKey keys k = (case map_of keys k of Some b \<Rightarrow> b | None \<Rightarrow> False)"

text \<open>
  \<^verbatim>\<open>Filters\<close> with its \<^verbatim>\<open>Len\<close>, \<^verbatim>\<open>Less\<close> and \<^verbatim>\<open>Swap\<close>. \<^verbatim>\<open>sort.Sort\<close> calls them
  with indices in range; out of range Go panics.
\<close>

definition Len :: "'r filter list \<Rightarrow> nat" where
  "Len fs = length fs"

definition Less :: "'r filter list \<Rightarrow> nat \<Rightarrow> nat \<Rightarrow> bool" where
  "Less fs i j = (GetFilterType (fs ! i) < GetFilterType (fs ! j))"

definition Swap :: "'r filter list \<Rightarrow> nat \<Rightarrow> nat \<Rightarrow> 'r filter list" where
  "Swap fs i j = fs[i := fs ! j, j := fs ! i]"

text \<open>
  Go's \<^verbatim>\<open>sort.Sort\<close> on \<^verbatim>\<open>Filters\<close>: the slice reordered so that no later filter is
  \<^verbatim>\<open>Less\<close> than an earlier one. It is not promised to be stable; the model is the
  stable insertion sort, and key derivation is shown below not to depend on the order
  of the filters at all.
\<close>

definition sortFilters :: "'r filter list \<Rightarrow> 'r filter list" where
  "sortFilters fs = sort_key GetFilterType fs"

text \<open>The switch in the loop body: the key of one filter, or the failed type assertion.\<close>

definition filterKey :: "('r \<Rightarrow> string) \<Rightarrow> 'r filter \<Rightarrow> error + string" where
  "filterKey String f =
     (let key = KvdbKey in
      if GetFilterType f = QueryResourceTypeFilter then
        (case GetValue f of
           ResourceTypeValue v \<Rightarrow> Inr (Join [key, String v])
         | _ \<Rightarrow> Inl typeAssertionError)
      else if GetFilterType f = QueryAlertTypeFilter then
        (case GetValue f of
           AlertInfoValue v \<Rightarrow>
             Inr (Join [key, String (resourceType v), FormatInt (sint (alertType v)) 16])
         | _ \<Rightarrow> Inl typeAssertionError)
      else if GetFilterType f = QueryResourceIDFilter then
        (case GetValue f of
           AlertInfoValue v \<Rightarrow>
             Inr (Join [key, String (resourceType v), FormatInt (sint (alertType v)) 16,
                        resourceID v])
         | _ \<Rightarrow> Inl typeAssertionError)
      else Inr key)"

text \<open>The first loop, over the sorted filters, with the map built so far.\<close>

fun collectKeys :: "('r \<Rightarrow> string) \<Rightarrow> 'r filter list \<Rightarrow> keymap \<Rightarrow> error + keymap" where
  "collectKeys String [] keys = Inr keys"
| "collectKeys String (f # fs) keys =
     (case filterKey String f of
        Inl e \<Rightarrow> Inl e
      | Inr key \<Rightarrow>
          (let keyPath = Trim (fst (Split key)) ''/'' in
           if \<not> lookupKey keys keyPath then collectKeys String fs (AList.update key True keys)
           else collectKeys String fs keys))"

text \<open>
  One step up: \<^verbatim>\<open>filepath.Split\<close>, then \<^verbatim>\<open>strings.Trim\<close> of the directory. Both loops
  take it. A path that is not empty gets shorter.
\<close>

lemma Trim_Split_shorter:
  assumes "keyPath \<noteq> []"
  shows "length (Trim (fst (Split keyPath)) ''/'') < length keyPath"
proof -
  define d where "d = dropWhile (\<lambda>c. c \<noteq> CHR ''/'') (rev keyPath)"
  define x where "x = Trim (fst (Split keyPath)) ''/''"
  have x': "x = dropWhile (\<lambda>c. c = CHR ''/'') (rev (dropWhile (\<lambda>c. c = CHR ''/'') d))"
    by (simp add: x_def Trim_def TrimLeft_def TrimRight_def Split_def d_def)
  have d_le: "length d \<le> length keyPath"
    unfolding d_def using length_dropWhile_le [of _ "rev keyPath"] by simp
  have "length x < length keyPath"
  proof (cases d)
    case Nil
    then show ?thesis using assms by (simp add: x')
  next
    case (Cons c cs)
    then have "c = CHR ''/''"
      using hd_dropWhile [of "\<lambda>c. c \<noteq> CHR ''/''" "rev keyPath"] by (simp add: d_def)
    then have "length (dropWhile (\<lambda>c. c = CHR ''/'') d) \<le> length cs"
      using Cons length_dropWhile_le [of _ cs] by simp
    moreover have "length x \<le> length (dropWhile (\<lambda>c. c = CHR ''/'') d)"
      unfolding x' using length_dropWhile_le [of _ "rev (dropWhile (\<lambda>c. c = CHR ''/'') d)"]
      by simp
    ultimately show ?thesis using d_le Cons by simp
  qed
  then show ?thesis by (simp add: x_def)
qed

text \<open>
  The inner loop of the second pass: walk up from a key, one element at a time, and
  report whether some path on the way is a key of the map.
\<close>

function inSubTree :: "keymap \<Rightarrow> string \<Rightarrow> bool" where
  "inSubTree keys keyPath =
     (if length keyPath > 0 then
        (let keyPath' = Trim (fst (Split keyPath)) ''/'' in
         if lookupKey keys keyPath' then True else inSubTree keys keyPath')
      else False)"
  by pat_completeness auto
termination
  by (relation "measure (\<lambda>(keys, keyPath). length keyPath)") (simp_all add: Trim_Split_shorter)

declare inSubTree.simps [simp del]

text \<open>The second pass: the keys to delete, then the deletions.\<close>

fun keysToDelete :: "keymap \<Rightarrow> string list \<Rightarrow> string list \<Rightarrow> string list" where
  "keysToDelete keys [] acc = acc"
| "keysToDelete keys (key # rest) acc =
     keysToDelete keys rest (if inSubTree keys key then acc @ [key] else acc)"

fun deleteKeys :: "string list \<Rightarrow> keymap \<Rightarrow> keymap" where
  "deleteKeys [] keys = keys"
| "deleteKeys (key # rest) keys = deleteKeys rest (AList.delete key keys)"

definition removeSubTrees :: "keymap \<Rightarrow> keymap" where
  "removeSubTrees keys = deleteKeys (keysToDelete keys (map fst keys) []) keys"

text \<open>
  \<^verbatim>\<open>getKeysFromFilters\<close>. The variadic parameter is the caller's slice when the call
  spreads one, and \<^verbatim>\<open>sort.Sort\<close> sorts it in place: the result is the slice after the
  call, and the map or the error.
\<close>

definition getKeysFromFilters ::
  "('r \<Rightarrow> string) \<Rightarrow> 'r filter list \<Rightarrow> 'r filter list \<times> (error + keymap)" where
  "getKeysFromFilters String filters =
     (if length filters > 0 then
        (let filters' = sortFilters filters in
         case collectKeys String filters' [] of
           Inl e \<Rightarrow> (filters', Inl e)
         | Inr keys \<Rightarrow> (filters', Inr (removeSubTrees keys)))
      else (filters, Inr (removeSubTrees (AList.update KvdbKey True []))))"

subsection \<open>Notions the properties are stated with\<close>

text \<open>The paths the inner loop visits from a key, nearest first.\<close>

function ancestors :: "string \<Rightarrow> string list" where
  "ancestors keyPath =
     (if length keyPath > 0 then
        (let keyPath' = Trim (fst (Split keyPath)) ''/'' in keyPath' # ancestors keyPath')
      else [])"
  by pat_completeness auto
termination
  by (relation "measure length") (simp_all add: Trim_Split_shorter)

declare ancestors.simps [simp del]

text \<open>
  \<open>a\<close> is a strict ancestor path of \<open>k\<close>: \<open>k\<close> is \<open>a\<close>, a separator and a rest
  that is not empty. A path prefix is an ancestor path or the path itself.
\<close>

definition isAncestorPath :: "string \<Rightarrow> string \<Rightarrow> bool" where
  "isAncestorPath a k =
     (length a + 1 < length k \<and> take (length a) k = a \<and> k ! length a = CHR ''/'')"

definition isPathPrefix :: "string \<Rightarrow> string \<Rightarrow> bool" where
  "isPathPrefix a k = (a = k \<or> isAncestorPath a k)"

text \<open>The keys of a map, and of the result of key derivation.\<close>

definition keySet :: "keymap \<Rightarrow> string set" where
  "keySet keys = fst ` set keys"

text \<open>
  The keys the first loop computes: the key of the switch for each filter, and
  \<^verbatim>\<open>KvdbKey\<close> for the empty sequence.
\<close>

definition filterKeys :: "('r \<Rightarrow> string) \<Rightarrow> 'r filter list \<Rightarrow> string list" where
  "filterKeys String filters =
     concat (map (\<lambda>f. case filterKey String f of Inl e \<Rightarrow> [] | Inr key \<Rightarrow> [key]) filters)"

definition candidateKeys :: "('r \<Rightarrow> string) \<Rightarrow> 'r filter list \<Rightarrow> string list" where
  "candidateKeys String filters = (if filters = [] then [KvdbKey] else filterKeys String filters)"

text \<open>The keys of a set that have none of the paths above them in the set.\<close>

definition minimalKeys :: "string set \<Rightarrow> string set" where
  "minimalKeys K = {k \<in> K. \<not> (\<exists>a\<in>set (ancestors k). a \<in> K)}"

text \<open>Every key of the map is stored with \<open>true\<close>.\<close>

definition allTrue :: "keymap \<Rightarrow> bool" where
  "allTrue keys = (\<forall>p\<in>set keys. snd p)"

text \<open>The three kinds that the switch of key derivation names.\<close>

definition queryCapable :: "FilterType \<Rightarrow> bool" where
  "queryCapable t =
     (t = QueryResourceTypeFilter \<or> t = QueryAlertTypeFilter \<or> t = QueryResourceIDFilter)"

text \<open>The eight kinds of the registry, and the payload each kind requires.\<close>

definition registered :: "FilterType \<Rightarrow> bool" where
  "registered t = (CustomFilter \<le> t \<and> t \<le> QueryResourceIDFilter)"

definition payloadConforms :: "'r filter \<Rightarrow> bool" where
  "payloadConforms f =
     (case filterValue f of
        FuncValue v \<Rightarrow> filterType f = CustomFilter
      | TimeZoneValue v \<Rightarrow> filterType f = TimeFilter
      | Int64Value v \<Rightarrow> filterType f = AlertTypeFilter \<or> filterType f = CountFilter
      | StringValue v \<Rightarrow> filterType f = ResourceIDFilter
      | ResourceTypeValue v \<Rightarrow> filterType f = QueryResourceTypeFilter
      | AlertInfoValue v \<Rightarrow>
          filterType f = QueryAlertTypeFilter \<or> filterType f = QueryResourceIDFilter
      | OtherValue \<Rightarrow> False)"

text \<open>
  The candidate keys in the spec's words: the key recorded after each query-capable
  filter. The candidates the code records have the root key as well when the sequence
  is empty or holds a filter that is not query-capable.
\<close>

definition queryKeys :: "('r \<Rightarrow> string) \<Rightarrow> 'r filter list \<Rightarrow> string list" where
  "queryKeys String filters =
     filterKeys String (filter (\<lambda>f. queryCapable (GetFilterType f)) filters)"

definition recordedCandidates :: "('r \<Rightarrow> string) \<Rightarrow> 'r filter list \<Rightarrow> string set" where
  "recordedCandidates String filters =
     set (queryKeys String filters) \<union>
     (if filters \<noteq> [] \<and> list_all (\<lambda>f. queryCapable (GetFilterType f)) filters then {}
      else {KvdbKey})"

text \<open>
  Instants at their full resolution, in nanoseconds since the epoch: a \<^verbatim>\<open>time.Time\<close>
  and an alert timestamp. The timestamp lies in the window when it is neither before
  start nor after stop. The sub-second part of an instant is below one second.
\<close>

definition timeNanos :: "Time \<Rightarrow> int" where
  "timeNanos t = sint (sec t) * 1000000000 + sint (nsec t)"

definition stampNanos :: "ProtoTimestamp \<Rightarrow> int" where
  "stampNanos ts = sint (Seconds ts) * 1000000000 + sint (Nanos ts)"

definition inWindow :: "timeZone \<Rightarrow> ProtoTimestamp \<Rightarrow> bool" where
  "inWindow tz ts = (timeNanos (start tz) \<le> stampNanos ts \<and> stampNanos ts \<le> timeNanos (stop tz))"

definition validNanos :: "32 word \<Rightarrow> bool" where
  "validNanos n = (0 \<le> sint n \<and> sint n < 1000000000)"

text \<open>
  The kvdb tree as the comment on the filter types in filter.go defines it:
  \<^verbatim>\<open>alerts/<resourceType>/<resourceID>/<alertType>/data\<close>, the place of an alert.
\<close>

definition alertKeyPath :: "('r \<Rightarrow> string) \<Rightarrow> 'r Alert \<Rightarrow> string" where
  "alertKeyPath String alert =
     stringsJoin [KvdbKey, String (Resource alert), ResourceId alert,
                  FormatInt (sint (AlertType alert)) 16, ''data''] ''/''"

text \<open>
  Modelled from the spec: the resource types and their \<^verbatim>\<open>String()\<close> method are
  declared outside src. The spec names the resource type Volume and renders it as
  \<open>Volume\<close>; this instance serves the concrete inputs below.
\<close>

datatype ResourceType = Volume | Node

fun ResourceType_String :: "ResourceType \<Rightarrow> string" where
  "ResourceType_String Volume = ''Volume''"
| "ResourceType_String Node = ''Node''"

text \<open>
  A well-formed relative path: no element between its separators is empty, so the
  path is not empty and has no leading, trailing or doubled separator.
\<close>

definition wfPath :: "string \<Rightarrow> bool" where
  "wfPath p = ([] \<notin> set (pathElems p))"

definition goodElems :: "string list \<Rightarrow> bool" where
  "goodElems es = (\<forall>e\<in>set es. e \<noteq> [] \<and> CHR ''/'' \<notin> set e)"

text \<open>A volume alert of type 5 on \<open>vol1\<close>, raised at second 100, for the concrete inputs.\<close>

definition exampleAlert :: "ResourceType Alert" where
  "exampleAlert =
     \<lparr>Id = 1, AlertType = 5, Resource = Volume, ResourceId = ''vol1'', Count = 4,
      Timestamp = \<lparr>Seconds = 100, Nanos = 0\<rparr>\<rparr>"

text \<open>
  A caller-supplied predicate that hands back the package's own error value, for a
  concrete input below.
\<close>

definition failingPredicate :: "'r Alert \<Rightarrow> 'r Alert \<times> bool \<times> error option" where
  "failingPredicate alert = (alert, False, Some typeAssertionError)"


section \<open>Properties\<close>

subsection \<open>Paths and their elements\<close>

lemma pathElems_not_Nil [simp]: "pathElems p \<noteq> []"
  by (induction p) (auto split: list.splits)

lemma pathElems_no_slash: "e \<in> set (pathElems p) \<Longrightarrow> CHR ''/'' \<notin> set e"
  by (induction p arbitrary: e) (auto split: if_splits list.splits)

lemma pathElems_append: "pathElems (x @ CHR ''/'' # y) = pathElems x @ pathElems y"
  by (induction x) (auto split: list.splits)

lemma pathElems_slash_free: "CHR ''/'' \<notin> set e \<Longrightarrow> pathElems e = [e]"
  by (induction e) auto

lemma stringsJoin_Cons: "es \<noteq> [] \<Longrightarrow> stringsJoin (e # es) sep = e @ sep @ stringsJoin es sep"
  by (cases es) auto

lemma stringsJoin_append:
  "xs \<noteq> [] \<Longrightarrow> ys \<noteq> [] \<Longrightarrow>
   stringsJoin (xs @ ys) sep = stringsJoin xs sep @ sep @ stringsJoin ys sep"
proof (induction xs)
  case Nil
  then show ?case by simp
next
  case (Cons x xs)
  show ?case
  proof (cases "xs = []")
    case True
    then show ?thesis using Cons.prems by (simp add: stringsJoin_Cons)
  next
    case False
    then show ?thesis using Cons by (simp add: stringsJoin_Cons)
  qed
qed

lemma stringsJoin_pathElems: "stringsJoin (pathElems p) ''/'' = p"
proof (induction p)
  case Nil
  then show ?case by simp
next
  case (Cons c cs)
  obtain e es where es: "pathElems cs = e # es"
    by (cases "pathElems cs") auto
  show ?case
  proof (cases "c = CHR ''/''")
    case True
    then show ?thesis using Cons by (simp add: stringsJoin_Cons)
  next
    case False
    have "stringsJoin ((c # e) # es) ''/'' = c # stringsJoin (e # es) ''/''"
      by (cases es) auto
    then show ?thesis using False Cons es by simp
  qed
qed

lemma pathElems_stringsJoin:
  "es \<noteq> [] \<Longrightarrow> \<forall>e\<in>set es. CHR ''/'' \<notin> set e \<Longrightarrow> pathElems (stringsJoin es ''/'') = es"
proof (induction es)
  case Nil
  then show ?case by simp
next
  case (Cons e es)
  show ?case
  proof (cases "es = []")
    case True
    then show ?thesis using Cons.prems by (simp add: pathElems_slash_free)
  next
    case False
    then have "pathElems (stringsJoin (e # es) ''/'') = pathElems e @ pathElems (stringsJoin es ''/'')"
      using pathElems_append [of e "stringsJoin es ''/''"] by (simp add: stringsJoin_Cons)
    then show ?thesis using Cons False by (simp add: pathElems_slash_free)
  qed
qed

lemma wfPath_goodElems: "wfPath p \<longleftrightarrow> goodElems (pathElems p)"
  unfolding wfPath_def goodElems_def using pathElems_no_slash by blast

lemma goodElems_join:
  "es \<noteq> [] \<Longrightarrow> goodElems es \<Longrightarrow>
   stringsJoin es ''/'' \<noteq> [] \<and> hd (stringsJoin es ''/'') \<noteq> CHR ''/'' \<and>
   last (stringsJoin es ''/'') \<noteq> CHR ''/''"
proof (induction es)
  case Nil
  then show ?case by simp
next
  case (Cons e es)
  have e0: "e \<noteq> []" "CHR ''/'' \<notin> set e"
    using Cons.prems(2) by (auto simp: goodElems_def)
  have e: "e \<noteq> []" "hd e \<noteq> CHR ''/''" "last e \<noteq> CHR ''/''"
    using e0 hd_in_set [of e] last_in_set [of e] by metis+
  show ?case
  proof (cases "es = []")
    case True
    then show ?thesis using e by simp
  next
    case False
    then have "stringsJoin es ''/'' \<noteq> []" "last (stringsJoin es ''/'') \<noteq> CHR ''/''"
      using Cons by (auto simp: goodElems_def)
    then show ?thesis using e False by (simp add: stringsJoin_Cons)
  qed
qed

lemma wfPath_join: "es \<noteq> [] \<Longrightarrow> goodElems es \<Longrightarrow> wfPath (stringsJoin es ''/'')"
  by (simp add: wfPath_goodElems pathElems_stringsJoin goodElems_def)

lemma Split_join_snoc:
  assumes "es \<noteq> []" and "CHR ''/'' \<notin> set e"
  shows "fst (Split (stringsJoin (es @ [e]) ''/'')) = stringsJoin es ''/'' @ ''/''"
proof -
  have "stringsJoin (es @ [e]) ''/'' = stringsJoin es ''/'' @ ''/'' @ e"
    using assms(1) by (simp add: stringsJoin_append)
  moreover have "dropWhile (\<lambda>c. c \<noteq> CHR ''/'') (rev e @ CHR ''/'' # rev (stringsJoin es ''/''))
      = CHR ''/'' # rev (stringsJoin es ''/'')"
    using assms(2) by (subst dropWhile_append2) auto
  ultimately show ?thesis by (simp add: Split_def)
qed

lemma Split_slash_free: "CHR ''/'' \<notin> set e \<Longrightarrow> fst (Split e) = []"
  by (auto simp: Split_def)

lemma Trim_good:
  assumes "p \<noteq> []" "hd p \<noteq> CHR ''/''" "last p \<noteq> CHR ''/''"
  shows "Trim (p @ ''/'') ''/'' = p"
proof -
  have "dropWhile (\<lambda>c. c = CHR ''/'') (rev p) = rev p"
    using assms by (cases "rev p") (auto simp: last_rev hd_rev)
  moreover have "dropWhile (\<lambda>c. c = CHR ''/'') p = p"
    using assms by (cases p) auto
  ultimately show ?thesis by (simp add: Trim_def TrimLeft_def TrimRight_def)
qed

lemma parent_wfPath:
  assumes "wfPath k"
  shows "Trim (fst (Split k)) ''/'' = stringsJoin (butlast (pathElems k)) ''/''"
proof -
  define es where "es = pathElems k"
  have good: "goodElems es" using assms by (simp add: wfPath_goodElems es_def)
  have k: "k = stringsJoin es ''/''" by (simp add: es_def stringsJoin_pathElems)
  have "es \<noteq> []" by (simp add: es_def)
  then obtain es' e where snoc: "es = es' @ [e]"
    by (cases es rule: rev_cases) auto
  have e: "CHR ''/'' \<notin> set e" using good snoc by (simp add: goodElems_def)
  have pe: "pathElems k = es' @ [e]" using snoc by (simp add: es_def)
  show ?thesis
  proof (cases "es' = []")
    case True
    then have "k = e" using k snoc by simp
    then have "Trim (fst (Split k)) ''/'' = []"
      using e by (simp add: Split_slash_free Trim_def TrimLeft_def TrimRight_def)
    then show ?thesis using pe True by simp
  next
    case False
    have g': "goodElems es'" using good snoc by (simp add: goodElems_def)
    have "fst (Split k) = stringsJoin es' ''/'' @ ''/''"
      unfolding k snoc by (rule Split_join_snoc [OF False e])
    then have "Trim (fst (Split k)) ''/'' = stringsJoin es' ''/''"
      using goodElems_join [OF False g'] by (simp add: Trim_good)
    then show ?thesis using pe by simp
  qed
qed

lemma wfPath_not_Nil: "wfPath k \<Longrightarrow> k \<noteq> []"
  by (auto simp: wfPath_def)

lemma ancestors_Nil [simp]: "ancestors [] = []"
  by (simp add: ancestors.simps)

lemma ancestors_step:
  "k \<noteq> [] \<Longrightarrow> ancestors k = Trim (fst (Split k)) ''/'' # ancestors (Trim (fst (Split k)) ''/'')"
  by (subst ancestors.simps) (simp add: Let_def)

lemma ancestors_wfPath:
  "wfPath k \<Longrightarrow>
   set (ancestors k) = (\<lambda>i. stringsJoin (take i (pathElems k)) ''/'') ` {0..<length (pathElems k)}"
proof (induction "length (pathElems k)" arbitrary: k)
  case 0
  then show ?case by simp
next
  case (Suc n)
  define es where "es = pathElems k"
  define par where "par = Trim (fst (Split k)) ''/''"
  have len: "length es = Suc n" using Suc.hyps(2) by (simp add: es_def)
  have good: "goodElems es" using Suc.prems by (simp add: wfPath_goodElems es_def)
  have par: "par = stringsJoin (butlast es) ''/''"
    unfolding par_def es_def by (rule parent_wfPath [OF Suc.prems])
  have step: "set (ancestors k) = insert par (set (ancestors par))"
    using ancestors_step [OF wfPath_not_Nil [OF Suc.prems]] by (simp add: par_def)
  have bl: "butlast es = take n es" using len by (simp add: butlast_conv_take)
  show ?case
  proof (cases n)
    case 0
    then have "par = []" using par bl by simp
    then show ?thesis using step len 0 by (simp add: es_def [symmetric])
  next
    case (Suc m)
    have ne: "butlast es \<noteq> []" using len Suc bl by auto
    have gb: "goodElems (butlast es)"
      using good in_set_butlastD [of _ es] by (auto simp: goodElems_def)
    have pe: "pathElems par = butlast es"
      unfolding par using ne gb by (intro pathElems_stringsJoin) (auto simp: goodElems_def)
    have wf: "wfPath par" unfolding par by (rule wfPath_join [OF ne gb])
    have "n = length (pathElems par)" using pe len by simp
    then have "set (ancestors par) =
        (\<lambda>i. stringsJoin (take i (pathElems par)) ''/'') ` {0..<length (pathElems par)}"
      using Suc.hyps(1) wf by blast
    also have "\<dots> = (\<lambda>i. stringsJoin (take i es) ''/'') ` {0..<n}"
      using len by (auto simp: pe bl min_def intro!: image_cong)
    finally have "set (ancestors k) = (\<lambda>i. stringsJoin (take i es) ''/'') ` insert n {0..<n}"
      using step par bl by simp
    moreover have "insert n {0..<n} = {0..<Suc n}" by auto
    ultimately show ?thesis using len by (simp add: es_def [symmetric])
  qed
qed

lemma isAncestorPath_iff:
  "isAncestorPath a k \<longleftrightarrow> (\<exists>r. r \<noteq> [] \<and> k = a @ CHR ''/'' # r)"
proof
  assume h: "isAncestorPath a k"
  then have "k = take (length a) k @ drop (length a) k" by simp
  moreover have "drop (length a) k = k ! length a # drop (Suc (length a)) k"
    using h by (intro Cons_nth_drop_Suc [symmetric]) (simp add: isAncestorPath_def)
  moreover have "drop (Suc (length a)) k \<noteq> []"
    using h by (simp add: isAncestorPath_def)
  ultimately show "\<exists>r. r \<noteq> [] \<and> k = a @ CHR ''/'' # r"
    using h unfolding isAncestorPath_def by metis
next
  assume "\<exists>r. r \<noteq> [] \<and> k = a @ CHR ''/'' # r"
  then show "isAncestorPath a k"
    by (auto simp: isAncestorPath_def)
qed

lemma isAncestorPath_wfPath:
  assumes "wfPath k"
  shows "isAncestorPath a k \<longleftrightarrow>
           (\<exists>i. 0 < i \<and> i < length (pathElems k) \<and> a = stringsJoin (take i (pathElems k)) ''/'')"
proof
  assume "isAncestorPath a k"
  then obtain r where r: "r \<noteq> []" "k = a @ CHR ''/'' # r"
    unfolding isAncestorPath_iff by blast
  have pe: "pathElems k = pathElems a @ pathElems r"
    unfolding r(2) by (rule pathElems_append)
  have "0 < length (pathElems a)" "length (pathElems a) < length (pathElems k)"
    using pe by simp_all
  moreover have "a = stringsJoin (take (length (pathElems a)) (pathElems k)) ''/''"
    using pe by (simp add: stringsJoin_pathElems)
  ultimately show "\<exists>i. 0 < i \<and> i < length (pathElems k) \<and> a = stringsJoin (take i (pathElems k)) ''/''"
    by blast
next
  assume "\<exists>i. 0 < i \<and> i < length (pathElems k) \<and> a = stringsJoin (take i (pathElems k)) ''/''"
  then obtain i where i: "0 < i" "i < length (pathElems k)"
    and a: "a = stringsJoin (take i (pathElems k)) ''/''"
    by blast
  define es where "es = pathElems k"
  have good: "goodElems es" using assms by (simp add: wfPath_goodElems es_def)
  have t: "take i es \<noteq> []" and d: "drop i es \<noteq> []"
    using i by (auto simp: es_def)
  have "goodElems (drop i es)"
    using good in_set_dropD [of _ i es] by (auto simp: goodElems_def)
  then have r: "stringsJoin (drop i es) ''/'' \<noteq> []"
    using goodElems_join [OF d] by simp
  have "k = stringsJoin (take i es @ drop i es) ''/''"
    by (simp add: es_def stringsJoin_pathElems)
  then have "k = a @ CHR ''/'' # stringsJoin (drop i es) ''/''"
    using stringsJoin_append [OF t d, of "''/''"] a by (simp add: es_def)
  then show "isAncestorPath a k"
    unfolding isAncestorPath_iff using r by blast
qed

lemma ancestors_isAncestorPath:
  assumes "wfPath k"
  shows "isAncestorPath a k \<longleftrightarrow> a \<in> set (ancestors k) \<and> a \<noteq> []"
proof -
  define es where "es = pathElems k"
  have good: "goodElems es" using assms by (simp add: wfPath_goodElems es_def)
  have nonempty: "stringsJoin (take i es) ''/'' \<noteq> []" if "0 < i" for i
  proof -
    have "take i es \<noteq> []" using that by (simp add: es_def)
    moreover have "goodElems (take i es)"
      using good in_set_takeD [of _ i es] by (auto simp: goodElems_def)
    ultimately show ?thesis using goodElems_join by blast
  qed
  have zero: "stringsJoin (take i es) ''/'' = []" if "i = 0" for i
    using that by simp
  show ?thesis
    unfolding isAncestorPath_wfPath [OF assms] ancestors_wfPath [OF assms] es_def [symmetric]
  proof
    assume "\<exists>i>0. i < length es \<and> a = stringsJoin (take i es) ''/''"
    then show "a \<in> (\<lambda>i. stringsJoin (take i es) ''/'') ` {0..<length es} \<and> a \<noteq> []"
      using nonempty by auto
  next
    assume "a \<in> (\<lambda>i. stringsJoin (take i es) ''/'') ` {0..<length es} \<and> a \<noteq> []"
    then obtain i where i: "i < length es" "a = stringsJoin (take i es) ''/''" "a \<noteq> []"
      by auto
    then have "0 < i" using zero [of i] by (cases i) auto
    then show "\<exists>i>0. i < length es \<and> a = stringsJoin (take i es) ''/''"
      using i by blast
  qed
qed

subsection \<open>The two passes of key derivation\<close>

lemma ancestors_shorter: "a \<in> set (ancestors k) \<Longrightarrow> length a < length k"
proof (induction k rule: length_induct)
  case (1 k)
  show ?case
  proof (cases "k = []")
    case True
    then show ?thesis using "1.prems" by simp
  next
    case False
    let ?p = "Trim (fst (Split k)) ''/''"
    have lt: "length ?p < length k" by (rule Trim_Split_shorter [OF False])
    from "1.prems" have "a = ?p \<or> a \<in> set (ancestors ?p)"
      by (simp add: ancestors_step [OF False])
    then show ?thesis using lt "1.IH" by (metis less_trans)
  qed
qed

lemma parent_in_ancestors: "k \<noteq> [] \<Longrightarrow> Trim (fst (Split k)) ''/'' \<in> set (ancestors k)"
  by (simp add: ancestors_step)

lemma ancestors_trans: "a \<in> set (ancestors k) \<Longrightarrow> set (ancestors a) \<subseteq> set (ancestors k)"
proof (induction k rule: length_induct)
  case (1 k)
  show ?case
  proof (cases "k = []")
    case True
    then show ?thesis using "1.prems" by simp
  next
    case False
    let ?p = "Trim (fst (Split k)) ''/''"
    have lt: "length ?p < length k" by (rule Trim_Split_shorter [OF False])
    have step: "set (ancestors k) = insert ?p (set (ancestors ?p))"
      by (simp add: ancestors_step [OF False])
    from "1.prems" step have "a = ?p \<or> a \<in> set (ancestors ?p)" by simp
    then show ?thesis
    proof
      assume "a = ?p"
      then show ?thesis using step by auto
    next
      assume "a \<in> set (ancestors ?p)"
      then have "set (ancestors a) \<subseteq> set (ancestors ?p)" using "1.IH" lt by blast
      then show ?thesis using step by auto
    qed
  qed
qed

lemma inSubTree_iff: "inSubTree keys k \<longleftrightarrow> (\<exists>a\<in>set (ancestors k). lookupKey keys a)"
proof (induction k rule: length_induct)
  case (1 k)
  show ?case
  proof (cases "k = []")
    case True
    then show ?thesis by (simp add: inSubTree.simps)
  next
    case False
    let ?p = "Trim (fst (Split k)) ''/''"
    have lt: "length ?p < length k" by (rule Trim_Split_shorter [OF False])
    have "inSubTree keys k \<longleftrightarrow> lookupKey keys ?p \<or> inSubTree keys ?p"
      using False by (subst inSubTree.simps) (simp add: Let_def)
    also have "\<dots> \<longleftrightarrow> lookupKey keys ?p \<or> (\<exists>a\<in>set (ancestors ?p). lookupKey keys a)"
      using "1.IH" lt by simp
    finally show ?thesis by (simp add: ancestors_step [OF False])
  qed
qed

lemma keysToDelete_filter: "keysToDelete keys ks acc = acc @ filter (inSubTree keys) ks"
  by (induction ks arbitrary: acc) auto

lemma deleteKeys_filter: "deleteKeys ds keys = filter (\<lambda>p. fst p \<notin> set ds) keys"
proof (induction ds arbitrary: keys)
  case Nil
  then show ?case by simp
next
  case (Cons d ds)
  have "AList.delete d keys = filter (\<lambda>p. fst p \<noteq> d) keys"
    by (auto simp: AList.delete_eq intro: filter_cong)
  then show ?case using Cons by (auto intro: filter_cong)
qed

lemma removeSubTrees_filter:
  "removeSubTrees keys = filter (\<lambda>p. \<not> inSubTree keys (fst p)) keys"
  unfolding removeSubTrees_def keysToDelete_filter deleteKeys_filter
  by (auto intro: filter_cong)

lemma lookupKey_allTrue: "allTrue keys \<Longrightarrow> lookupKey keys k \<longleftrightarrow> k \<in> keySet keys"
proof
  assume "lookupKey keys k"
  then obtain b where "map_of keys k = Some b"
    by (auto simp: lookupKey_def split: option.splits)
  then show "k \<in> keySet keys"
    unfolding keySet_def by (metis map_of_SomeD fst_conv image_eqI)
next
  assume a: "allTrue keys" and "k \<in> keySet keys"
  then obtain v where v: "map_of keys k = Some v"
    unfolding keySet_def by (metis map_of_eq_None_iff not_Some_eq)
  then have "(k, v) \<in> set keys" by (rule map_of_SomeD)
  then have "v" using a by (auto simp: allTrue_def)
  then show "lookupKey keys k" using v by (simp add: lookupKey_def)
qed

lemma filterKey_Inl: "filterKey S f = Inl e \<Longrightarrow> e = typeAssertionError"
  by (auto simp: filterKey_def Let_def split: if_splits Value.splits)

lemma filterKeys_Cons:
  "filterKey S f = Inr key \<Longrightarrow> filterKeys S (f # fs) = key # filterKeys S fs"
  by (simp add: filterKeys_def)

lemma set_filterKeys: "set (filterKeys S fs) = {k. \<exists>f\<in>set fs. filterKey S f = Inr k}"
  by (auto simp: filterKeys_def split: sum.splits)

lemma keySet_update: "keySet (AList.update k v keys) = insert k (keySet keys)"
  by (simp add: keySet_def dom_update)

lemma allTrue_update: "allTrue keys \<Longrightarrow> allTrue (AList.update k True keys)"
  by (induction keys) (auto simp: allTrue_def)

lemma collectKeys_Inr:
  "collectKeys S fs keys = Inr keys' \<Longrightarrow> allTrue keys \<Longrightarrow> distinct (map fst keys) \<Longrightarrow>
   allTrue keys' \<and> distinct (map fst keys') \<and>
   keySet keys \<subseteq> keySet keys' \<and>
   keySet keys' \<subseteq> keySet keys \<union> set (filterKeys S fs) \<and>
   (\<forall>k\<in>set (filterKeys S fs). k \<in> keySet keys' \<or> Trim (fst (Split k)) ''/'' \<in> keySet keys') \<and>
   (\<forall>f\<in>set fs. \<exists>k. filterKey S f = Inr k)"
proof (induction fs arbitrary: keys)
  case Nil
  then show ?case by (simp add: filterKeys_def)
next
  case (Cons f fs)
  obtain key where key: "filterKey S f = Inr key"
    using Cons.prems(1) by (cases "filterKey S f") auto
  let ?p = "Trim (fst (Split key)) ''/''"
  define keys1 where
    "keys1 = (if \<not> lookupKey keys ?p then AList.update key True keys else keys)"
  have run: "collectKeys S fs keys1 = Inr keys'"
    using Cons.prems(1) key by (cases "lookupKey keys ?p") (simp_all add: keys1_def Let_def)
  have inv1: "allTrue keys1" "distinct (map fst keys1)"
    using Cons.prems(2,3) by (auto simp: keys1_def allTrue_update distinct_update)
  have ks1: "keySet keys \<subseteq> keySet keys1" "keySet keys1 \<subseteq> insert key (keySet keys)"
    "key \<in> keySet keys1 \<or> ?p \<in> keySet keys1"
    using lookupKey_allTrue [OF Cons.prems(2)] by (auto simp: keys1_def keySet_update)
  have IH: "allTrue keys' \<and> distinct (map fst keys') \<and>
     keySet keys1 \<subseteq> keySet keys' \<and>
     keySet keys' \<subseteq> keySet keys1 \<union> set (filterKeys S fs) \<and>
     (\<forall>k\<in>set (filterKeys S fs). k \<in> keySet keys' \<or> Trim (fst (Split k)) ''/'' \<in> keySet keys') \<and>
     (\<forall>f\<in>set fs. \<exists>k. filterKey S f = Inr k)"
    by (rule Cons.IH [OF run inv1])
  have fk: "set (filterKeys S (f # fs)) = insert key (set (filterKeys S fs))"
    by (simp add: filterKeys_Cons [OF key])
  have "keySet keys \<subseteq> keySet keys'" using IH ks1 by blast
  moreover have "keySet keys' \<subseteq> keySet keys \<union> set (filterKeys S (f # fs))"
    unfolding fk using IH ks1 by blast
  moreover have "\<forall>k\<in>set (filterKeys S (f # fs)).
      k \<in> keySet keys' \<or> Trim (fst (Split k)) ''/'' \<in> keySet keys'"
    unfolding fk using IH ks1 by blast
  moreover have "\<forall>g\<in>set (f # fs). \<exists>k. filterKey S g = Inr k"
    using IH key by simp
  ultimately show ?case using IH by blast
qed

lemma collectKeys_Inl: "collectKeys S fs keys = Inl e \<Longrightarrow> e = typeAssertionError"
  by (induction fs arbitrary: keys)
     (auto simp: Let_def split: sum.splits if_splits dest: filterKey_Inl)

lemma collectKeys_total:
  "\<forall>f\<in>set fs. \<exists>k. filterKey S f = Inr k \<Longrightarrow> \<exists>keys'. collectKeys S fs keys = Inr keys'"
  by (induction fs arbitrary: keys) (auto simp: Let_def)

lemma parent_Nil: "Trim (fst (Split [])) ''/'' = []"
  by (simp add: Split_def Trim_def TrimLeft_def TrimRight_def)

lemma keySet_removeSubTrees:
  "allTrue keys \<Longrightarrow>
   keySet (removeSubTrees keys) = {k \<in> keySet keys. \<not> (\<exists>a\<in>set (ancestors k). a \<in> keySet keys)}"
  unfolding removeSubTrees_filter keySet_def [of "filter _ _"]
  by (auto simp: inSubTree_iff lookupKey_allTrue keySet_def)

lemma removeSubTrees_minimal:
  assumes true: "allTrue keys" and sub: "keySet keys \<subseteq> K"
    and cover: "\<forall>k\<in>K. k \<in> keySet keys \<or> Trim (fst (Split k)) ''/'' \<in> keySet keys"
  shows "keySet (removeSubTrees keys) = minimalKeys K"
proof -
  have up: "a \<in> keySet keys \<or> (\<exists>b\<in>set (ancestors k). b \<in> keySet keys)"
    if "a \<in> K" "a \<in> set (ancestors k)" for a k
  proof (cases "a = []")
    case True
    then show ?thesis using cover that(1) by (auto simp: parent_Nil)
  next
    case False
    have "Trim (fst (Split a)) ''/'' \<in> set (ancestors k)"
      using parent_in_ancestors [OF False] ancestors_trans [OF that(2)] by blast
    then show ?thesis using cover that(1) by blast
  qed
  have own: "k \<in> keySet keys" if "k \<in> K" "\<not> (\<exists>a\<in>set (ancestors k). a \<in> K)" for k
  proof (cases "k = []")
    case True
    then show ?thesis using cover that(1) by (auto simp: parent_Nil)
  next
    case False
    then show ?thesis using parent_in_ancestors [OF False] cover that sub by blast
  qed
  show ?thesis
    unfolding keySet_removeSubTrees [OF true] minimalKeys_def
    using sub up own by blast
qed

lemma removeSubTrees_allTrue: "allTrue keys \<Longrightarrow> allTrue (removeSubTrees keys)"
  by (simp add: removeSubTrees_filter allTrue_def)

lemma removeSubTrees_distinct:
  "distinct (map fst keys) \<Longrightarrow> distinct (map fst (removeSubTrees keys))"
  by (simp add: removeSubTrees_filter distinct_map_filter)

lemma set_sortFilters: "set (sortFilters fs) = set fs"
  by (simp add: sortFilters_def)

lemma sortFilters_Less:
  "i < j \<Longrightarrow> j < Len (sortFilters fs) \<Longrightarrow> \<not> Less (sortFilters fs) j i"
proof -
  assume ij: "i < j" "j < Len (sortFilters fs)"
  have "sorted (map GetFilterType (sortFilters fs))"
    by (simp add: sortFilters_def)
  then have "map GetFilterType (sortFilters fs) ! i \<le> map GetFilterType (sortFilters fs) ! j"
    using ij by (intro sorted_nth_mono) (simp_all add: Len_def)
  then show ?thesis using ij by (simp add: Less_def Len_def)
qed

lemma sortFilters_Nil_iff: "sortFilters fs = [] \<longleftrightarrow> fs = []"
  by (metis set_sortFilters set_empty)

lemma candidateKeys_alt:
  "candidateKeys S fs = (if fs = [] then [KvdbKey] else filterKeys S fs)"
  by (simp add: candidateKeys_def)

lemma set_candidateKeys_sort:
  "set (candidateKeys S (sortFilters fs)) = set (candidateKeys S fs)"
  by (simp add: candidateKeys_alt set_filterKeys set_sortFilters sortFilters_Nil_iff)

lemma getKeys_Inr:
  assumes "snd (getKeysFromFilters S fs) = Inr res"
  shows "keySet res = minimalKeys (set (candidateKeys S fs))"
    and "allTrue res" and "distinct (map fst res)"
    and "\<forall>f\<in>set fs. \<exists>k. filterKey S f = Inr k"
proof -
  have "keySet res = minimalKeys (set (candidateKeys S fs)) \<and> allTrue res \<and>
        distinct (map fst res) \<and> (\<forall>f\<in>set fs. \<exists>k. filterKey S f = Inr k)"
  proof (cases "fs = []")
    case True
    let ?keys = "AList.update KvdbKey True []"
    have res: "res = removeSubTrees ?keys"
      using assms True by (simp add: getKeysFromFilters_def)
    have t: "allTrue ?keys" "distinct (map fst ?keys)" by (simp_all add: allTrue_def)
    have "keySet (removeSubTrees ?keys) = minimalKeys {KvdbKey}"
      by (rule removeSubTrees_minimal [OF t(1)]) (simp_all add: keySet_def)
    then show ?thesis
      using True t res by (simp add: candidateKeys_alt removeSubTrees_allTrue removeSubTrees_distinct)
  next
    case False
    then obtain keys where run: "collectKeys S (sortFilters fs) [] = Inr keys"
      and res: "res = removeSubTrees keys"
      using assms by (auto simp: getKeysFromFilters_def Let_def split: sum.splits)
    have inv: "allTrue keys \<and> distinct (map fst keys) \<and>
       keySet [] \<subseteq> keySet keys \<and>
       keySet keys \<subseteq> keySet [] \<union> set (filterKeys S (sortFilters fs)) \<and>
       (\<forall>k\<in>set (filterKeys S (sortFilters fs)).
           k \<in> keySet keys \<or> Trim (fst (Split k)) ''/'' \<in> keySet keys) \<and>
       (\<forall>f\<in>set (sortFilters fs). \<exists>k. filterKey S f = Inr k)"
      by (rule collectKeys_Inr [OF run]) (simp_all add: allTrue_def)
    have "keySet (removeSubTrees keys) = minimalKeys (set (filterKeys S (sortFilters fs)))"
      using inv by (intro removeSubTrees_minimal) (auto simp: keySet_def)
    moreover have "set (filterKeys S (sortFilters fs)) = set (candidateKeys S fs)"
      using False by (simp add: candidateKeys_alt set_filterKeys set_sortFilters)
    ultimately show ?thesis
      using inv res by (simp add: removeSubTrees_allTrue removeSubTrees_distinct set_sortFilters)
  qed
  then show "keySet res = minimalKeys (set (candidateKeys S fs))"
    and "allTrue res" and "distinct (map fst res)"
    and "\<forall>f\<in>set fs. \<exists>k. filterKey S f = Inr k"
    by simp_all
qed

lemma getKeys_Inl:
  "snd (getKeysFromFilters S fs) = Inl e \<Longrightarrow> e = typeAssertionError"
  by (auto simp: getKeysFromFilters_def Let_def split: if_splits sum.splits dest: collectKeys_Inl)

lemma getKeys_total:
  assumes "\<forall>f\<in>set fs. \<exists>k. filterKey S f = Inr k"
  shows "\<exists>res. snd (getKeysFromFilters S fs) = Inr res"
proof -
  have "\<forall>f\<in>set (sortFilters fs). \<exists>k. filterKey S f = Inr k"
    using assms by (simp add: set_sortFilters)
  then obtain keys where "collectKeys S (sortFilters fs) [] = Inr keys"
    using collectKeys_total by blast
  then show ?thesis by (simp add: getKeysFromFilters_def Let_def)
qed

text \<open>
  Key derivation fails exactly when some query-capable filter has a payload of the
  wrong shape; the payloads of the other filters are not looked at.
\<close>

lemma filterKey_succeeds_iff:
  "(\<exists>k. filterKey S f = Inr k) \<longleftrightarrow> (queryCapable (filterType f) \<longrightarrow> payloadConforms f)"
  by (auto simp: filterKey_def queryCapable_def payloadConforms_def GetFilterType_def GetValue_def
      FilterType_defs Let_def split: Value.splits)

lemma getKeys_succeeds_iff:
  "(\<exists>res. snd (getKeysFromFilters S fs) = Inr res) \<longleftrightarrow>
   (\<forall>f\<in>set fs. queryCapable (filterType f) \<longrightarrow> payloadConforms f)"
  using getKeys_total [of fs S] getKeys_Inr(4) [of S fs] filterKey_succeeds_iff [of S]
  by blast

subsection \<open>The keys are well-formed paths\<close>

lemma cleanElems_good:
  "goodElems out \<Longrightarrow> \<forall>e\<in>set es. CHR ''/'' \<notin> set e \<Longrightarrow> goodElems (cleanElems rooted out es)"
proof (induction es arbitrary: out)
  case Nil
  then show ?case by simp
next
  case (Cons e es)
  have tl: "goodElems (tl out)"
    using Cons.prems(1) by (cases out) (auto simp: goodElems_def)
  have dd: "goodElems (''..'' # out)"
    using Cons.prems(1) by (auto simp: goodElems_def)
  have ee: "e \<noteq> [] \<Longrightarrow> goodElems (e # out)"
    using Cons.prems by (auto simp: goodElems_def)
  have IH: "goodElems (cleanElems rooted out' es)" if "goodElems out'" for out'
    using Cons.IH [OF that] Cons.prems(2) by simp
  show ?case
    using IH [OF Cons.prems(1)] IH [OF tl] IH [OF dd] IH [OF ee] by auto
qed

lemma Clean_wfPath:
  assumes "p \<noteq> []" and "hd p \<noteq> CHR ''/''"
  shows "wfPath (Clean p)"
proof -
  define out where "out = rev (cleanElems False [] (pathElems p))"
  have good: "goodElems out"
    using cleanElems_good [of "[]" "pathElems p" False] pathElems_no_slash [of _ p]
    by (auto simp: out_def goodElems_def)
  have c: "Clean p = (if out = [] then ''.'' else stringsJoin out ''/'')"
    using assms by (simp add: Clean_def out_def Let_def)
  show ?thesis
  proof (cases "out = []")
    case True
    then show ?thesis using c by (simp add: wfPath_def)
  next
    case False
    then show ?thesis using c good by (simp add: wfPath_join)
  qed
qed

lemma Join_KvdbKey: "wfPath (Join (KvdbKey # rest))"
proof -
  have j: "Join (KvdbKey # rest) = Clean (stringsJoin (KvdbKey # rest) ''/'')"
    by (simp add: Join_def KvdbKey_def)
  have "stringsJoin (KvdbKey # rest) ''/'' = KvdbKey @ (if rest = [] then [] else ''/'' @ stringsJoin rest ''/'')"
    by (cases rest) auto
  then have "stringsJoin (KvdbKey # rest) ''/'' \<noteq> [] \<and> hd (stringsJoin (KvdbKey # rest) ''/'') \<noteq> CHR ''/''"
    by (simp add: KvdbKey_def)
  then show ?thesis unfolding j using Clean_wfPath by blast
qed

lemma wfPath_KvdbKey: "wfPath KvdbKey"
  by (simp add: wfPath_def KvdbKey_def)

lemma filterKey_wfPath: "filterKey S f = Inr k \<Longrightarrow> wfPath k"
  by (auto simp: filterKey_def Let_def Join_KvdbKey wfPath_KvdbKey split: if_splits Value.splits)

lemma candidateKeys_wfPath: "k \<in> set (candidateKeys S fs) \<Longrightarrow> wfPath k"
  by (auto simp: candidateKeys_def set_filterKeys wfPath_KvdbKey filterKey_wfPath split: if_splits)

lemma minimalKeys_wf:
  assumes "\<forall>k\<in>K. wfPath k"
  shows "minimalKeys K = {k \<in> K. \<not> (\<exists>a\<in>K. isAncestorPath a k)}"
  unfolding minimalKeys_def
  using assms ancestors_isAncestorPath wfPath_not_Nil by blast

lemma isAncestorPath_shorter: "isAncestorPath a k \<Longrightarrow> length a < length k"
  by (simp add: isAncestorPath_def)

lemma isAncestorPath_trans:
  "isAncestorPath a b \<Longrightarrow> isAncestorPath b c \<Longrightarrow> isAncestorPath a c"
  unfolding isAncestorPath_iff by (metis append.assoc append_Cons append_is_Nil_conv)

lemma minimal_ancestor_exists:
  assumes "finite K" and "k \<in> K"
  shows "\<exists>a\<in>K. (a = k \<or> isAncestorPath a k) \<and> \<not> (\<exists>b\<in>K. isAncestorPath b a)"
  using assms(2)
proof (induction k rule: length_induct)
  case (1 k)
  show ?case
  proof (cases "\<exists>b\<in>K. isAncestorPath b k")
    case False
    then show ?thesis using "1.prems" by blast
  next
    case True
    then obtain b where b: "b \<in> K" "isAncestorPath b k" by blast
    then obtain a where "a \<in> K" "a = b \<or> isAncestorPath a b" "\<not> (\<exists>c\<in>K. isAncestorPath c a)"
      using "1.IH" isAncestorPath_shorter by blast
    then show ?thesis using b isAncestorPath_trans by blast
  qed
qed

subsection \<open>Match\<close>

lemma registered_cases:
  "registered t \<longleftrightarrow>
     t = CustomFilter \<or> t = TimeFilter \<or> t = AlertTypeFilter \<or> t = ResourceIDFilter \<or>
     t = CountFilter \<or> t = QueryResourceTypeFilter \<or> t = QueryAlertTypeFilter \<or>
     t = QueryResourceIDFilter"
  unfolding registered_def FilterType_defs by presburger

text \<open>
  C8, as amended. A Time filter whose payload is a time zone \<open>{start, stop}\<close> never
  fails, and it matches exactly the alerts whose timestamp, in whole seconds, lies in the
  closed interval from \<^verbatim>\<open>start.Unix()\<close> to \<^verbatim>\<open>stop.Unix()\<close>, both bounds included.
  Every alert whose timestamp lies in the closed interval from start to stop matches,
  one at start or at stop included; when the bounds and the timestamp have no
  sub-second part, no other alert matches.
\<close>

theorem Match_TimeFilter_whole_seconds:
  assumes "filterType f = TimeFilter" and "filterValue f = TimeZoneValue tz"
  shows "snd (Match f alert) =
           (sint (Unix (start tz)) \<le> sint (Seconds (Timestamp alert)) \<and>
            sint (Seconds (Timestamp alert)) \<le> sint (Unix (stop tz)), None) \<and>
         (validNanos (nsec (start tz)) \<and> validNanos (nsec (stop tz)) \<and>
          validNanos (Nanos (Timestamp alert)) \<and> inWindow tz (Timestamp alert)
            \<longrightarrow> fst (snd (Match f alert))) \<and>
         (nsec (start tz) = 0 \<and> nsec (stop tz) = 0 \<and> Nanos (Timestamp alert) = 0
            \<longrightarrow> fst (snd (Match f alert)) = inWindow tz (Timestamp alert))"
proof -
  have m: "snd (Match f alert) =
           (sint (Unix (start tz)) \<le> sint (Seconds (Timestamp alert)) \<and>
            sint (Seconds (Timestamp alert)) \<le> sint (Unix (stop tz)), None)"
    using assms by (simp add: Match_def FilterType_defs)
  have sup: "fst (snd (Match f alert))"
    if "validNanos (nsec (start tz))" "validNanos (nsec (stop tz))"
       "validNanos (Nanos (Timestamp alert))" "inWindow tz (Timestamp alert)"
    using that unfolding m
    by (auto simp: validNanos_def inWindow_def timeNanos_def stampNanos_def Unix_def)
  have whole: "fst (snd (Match f alert)) = inWindow tz (Timestamp alert)"
    if "nsec (start tz) = 0" "nsec (stop tz) = 0" "Nanos (Timestamp alert) = 0"
    using that unfolding m
    by (simp add: inWindow_def timeNanos_def stampNanos_def Unix_def)
  show ?thesis using m sup whole by blast
qed

text \<open>An alert raised at second 100 matches the window from 100 to 200 (lower bound).\<close>

theorem Match_TimeFilter_whole_seconds_witness:
  "snd (Match \<lparr>filterType = TimeFilter,
                filterValue = TimeZoneValue \<lparr>start = \<lparr>sec = 100, nsec = 0\<rparr>,
                                             stop = \<lparr>sec = 200, nsec = 0\<rparr>\<rparr>\<rparr>
          exampleAlert) = (True, None) \<and>
   validNanos 0 \<and>
   inWindow \<lparr>start = \<lparr>sec = 100, nsec = 0\<rparr>, stop = \<lparr>sec = 200, nsec = 0\<rparr>\<rparr> (Timestamp exampleAlert)"
  using Match_TimeFilter_whole_seconds
          [of "\<lparr>filterType = TimeFilter,
                filterValue = TimeZoneValue \<lparr>start = \<lparr>sec = 100, nsec = 0\<rparr>,
                                             stop = \<lparr>sec = 200, nsec = 0\<rparr>\<rparr>\<rparr>"
              "\<lparr>start = \<lparr>sec = 100, nsec = 0\<rparr>, stop = \<lparr>sec = 200, nsec = 0\<rparr>\<rparr>"
              exampleAlert]
  by (simp add: Unix_def exampleAlert_def validNanos_def inWindow_def timeNanos_def stampNanos_def)

text \<open>
  The claim as stated fails: the alert raised at second 100 matches a window that
  starts half a second later.
\<close>

theorem Match_TimeFilter_whole_seconds_counterexample:
  "snd (Match \<lparr>filterType = TimeFilter,
                filterValue = TimeZoneValue \<lparr>start = \<lparr>sec = 100, nsec = 500000000\<rparr>,
                                             stop = \<lparr>sec = 200, nsec = 0\<rparr>\<rparr>\<rparr>
          exampleAlert) = (True, None) \<and>
   \<not> inWindow \<lparr>start = \<lparr>sec = 100, nsec = 500000000\<rparr>, stop = \<lparr>sec = 200, nsec = 0\<rparr>\<rparr>
       (Timestamp exampleAlert) \<and>
   validNanos 500000000 \<and> validNanos 0"
  by (simp add: Match_def FilterType_defs Unix_def exampleAlert_def validNanos_def inWindow_def
      timeNanos_def stampNanos_def)

lemma Match_not_Custom:
  assumes "filterType f \<noteq> CustomFilter"
  shows "(snd (snd (Match f alert)) = Some typeAssertionError \<longleftrightarrow>
            registered (filterType f) \<and> \<not> payloadConforms f)"
    and "(snd (snd (Match f alert)) = Some invalidFilterType \<longleftrightarrow> \<not> registered (filterType f))"
    and "fst (Match f alert) = alert"
  using assms
  by (auto simp: Match_def registered_cases payloadConforms_def FilterType_defs split: Value.splits)

text \<open>
  C7, as amended. For a filter whose kind is not Custom, Match fails with the type
  assertion error (ValueShapeMismatch) exactly when the kind is one of the eight
  registered kinds and the payload does not have the shape the kind requires, and with
  the invalid filter type error (UnknownFilterKind) exactly when the kind is outside
  the registry. For a Custom filter, Match fails with the type assertion error when
  the payload is not a predicate, and otherwise returns whatever the predicate returns.
\<close>

theorem Match_errors:
  "(filterType f \<noteq> CustomFilter \<longrightarrow>
      (snd (snd (Match f alert)) = Some typeAssertionError \<longleftrightarrow>
         registered (filterType f) \<and> \<not> payloadConforms f) \<and>
      (snd (snd (Match f alert)) = Some invalidFilterType \<longleftrightarrow> \<not> registered (filterType f))) \<and>
   (filterType f = CustomFilter \<longrightarrow>
      (case filterValue f of
         FuncValue v \<Rightarrow> Match f alert = v alert
       | _ \<Rightarrow> Match f alert = (alert, False, Some typeAssertionError)))"
proof (cases "filterType f = CustomFilter")
  case True
  then show ?thesis by (simp add: Match_def split: Value.splits)
next
  case False
  then show ?thesis using Match_not_Custom(1,2) [OF False] by simp
qed

text \<open>
  A Count filter with a string payload fails with the type assertion error; a filter
  of kind 42 fails with the invalid filter type error.
\<close>

theorem Match_errors_witness:
  "filterType (\<lparr>filterType = CountFilter, filterValue = StringValue ''3''\<rparr>
                 :: ResourceType filter) \<noteq> CustomFilter \<and>
   registered CountFilter \<and>
   \<not> payloadConforms (\<lparr>filterType = CountFilter, filterValue = StringValue ''3''\<rparr>
                        :: ResourceType filter) \<and>
   snd (snd (Match \<lparr>filterType = CountFilter, filterValue = StringValue ''3''\<rparr> exampleAlert))
     = Some typeAssertionError \<and>
   \<not> registered 42 \<and>
   snd (snd (Match \<lparr>filterType = 42, filterValue = Int64Value 3\<rparr> exampleAlert))
     = Some invalidFilterType"
  using Match_errors [of "\<lparr>filterType = CountFilter, filterValue = StringValue ''3''\<rparr>" exampleAlert]
        Match_errors [of "\<lparr>filterType = 42, filterValue = Int64Value 3\<rparr>" exampleAlert]
  by (simp add: registered_def payloadConforms_def FilterType_defs)

text \<open>
  The claim as stated fails for a Custom filter: its payload is a predicate, as the
  kind requires, and Match returns the type assertion error that the predicate returns.
\<close>

theorem Match_errors_counterexample:
  "registered (filterType (\<lparr>filterType = CustomFilter, filterValue = FuncValue failingPredicate\<rparr>
                              :: ResourceType filter)) \<and>
   payloadConforms (\<lparr>filterType = CustomFilter, filterValue = FuncValue failingPredicate\<rparr>
                      :: ResourceType filter) \<and>
   snd (snd (Match \<lparr>filterType = CustomFilter, filterValue = FuncValue failingPredicate\<rparr>
               exampleAlert)) = Some typeAssertionError"
  by (simp add: Match_def registered_def payloadConforms_def failingPredicate_def FilterType_defs)

subsection \<open>Key derivation\<close>

lemma set_allTrue: "allTrue m \<Longrightarrow> set m = keySet m \<times> {True}"
proof -
  assume a: "allTrue m"
  show ?thesis
  proof (intro set_eqI iffI)
    fix p assume "p \<in> set m"
    then have "fst p \<in> keySet m" "snd p = True"
      using a by (auto simp: allTrue_def keySet_def)
    then show "p \<in> keySet m \<times> {True}" by (cases p) simp
  next
    fix p assume "p \<in> keySet m \<times> {True}"
    then obtain q where "q \<in> set m" "fst q = fst p" "snd p = True"
      by (auto simp: keySet_def)
    moreover from this a have "snd q = True" by (auto simp: allTrue_def)
    ultimately have "q = p" by (simp add: prod_eq_iff)
    then show "p \<in> set m" using \<open>q \<in> set m\<close> by simp
  qed
qed

lemma getKeys_keySet_wf:
  assumes "snd (getKeysFromFilters S fs) = Inr res"
  shows "keySet res =
           {k \<in> set (candidateKeys S fs). \<not> (\<exists>a\<in>set (candidateKeys S fs). isAncestorPath a k)}"
  using getKeys_Inr(1) [OF assms] minimalKeys_wf [of "set (candidateKeys S fs)"]
        candidateKeys_wfPath [of _ S fs]
  by blast

lemma kept_ancestor_exists:
  assumes "snd (getKeysFromFilters S fs) = Inr res"
  shows "\<forall>k\<in>set (candidateKeys S fs). \<exists>a\<in>keySet res. isPathPrefix a k"
proof -
  have ks: "keySet res =
      {k \<in> set (candidateKeys S fs). \<not> (\<exists>a\<in>set (candidateKeys S fs). isAncestorPath a k)}"
    by (rule getKeys_keySet_wf [OF assms])
  show "\<forall>k\<in>set (candidateKeys S fs). \<exists>a\<in>keySet res. isPathPrefix a k"
  proof
    fix k assume "k \<in> set (candidateKeys S fs)"
    then obtain a where "a \<in> set (candidateKeys S fs)" "a = k \<or> isAncestorPath a k"
      "\<not> (\<exists>b\<in>set (candidateKeys S fs). isAncestorPath b a)"
      using minimal_ancestor_exists [of "set (candidateKeys S fs)" k] by auto
    then show "\<exists>a\<in>keySet res. isPathPrefix a k"
      unfolding ks isPathPrefix_def by blast
  qed
qed

lemmas eval_defs =
  getKeysFromFilters_def sortFilters_def GetFilterType_def GetValue_def FilterType_defs
  filterKey_def KvdbKey_def Join_def Clean_def Split_def Trim_def TrimLeft_def TrimRight_def
  lookupKey_def removeSubTrees_def inSubTree.simps FormatInt_def formatBits.simps digitChar_def
  candidateKeys_def filterKeys_def keySet_def isAncestorPath_def isPathPrefix_def

lemma set_candidateKeys_recorded:
  "set (candidateKeys S fs) = recordedCandidates S fs"
proof (cases "fs = []")
  case True
  then show ?thesis
    by (simp add: candidateKeys_def recordedCandidates_def queryKeys_def filterKeys_def)
next
  case False
  let ?q = "\<lambda>f. queryCapable (GetFilterType f)"
  have nq: "filterKey S f = Inr KvdbKey" if "\<not> ?q f" for f
    using that by (simp add: filterKey_def queryCapable_def Let_def)
  have split: "{k. \<exists>f\<in>set fs. filterKey S f = Inr k} =
      {k. \<exists>f\<in>set fs. ?q f \<and> filterKey S f = Inr k} \<union>
      {k. \<exists>f\<in>set fs. \<not> ?q f \<and> filterKey S f = Inr k}"
    by blast
  have rest: "{k. \<exists>f\<in>set fs. \<not> ?q f \<and> filterKey S f = Inr k} =
      (if list_all ?q fs then {} else {KvdbKey})"
    using nq by (auto simp: list_all_iff)
  have "set (candidateKeys S fs) = {k. \<exists>f\<in>set fs. filterKey S f = Inr k}"
    using False by (simp add: candidateKeys_def set_filterKeys)
  moreover have "set (queryKeys S fs) = {k. \<exists>f\<in>set fs. ?q f \<and> filterKey S f = Inr k}"
    by (auto simp: queryKeys_def set_filterKeys)
  ultimately show ?thesis
    using False split rest by (simp add: recordedCandidates_def)
qed

text \<open>
  C1, as amended. Whenever key derivation succeeds, the keys it returns are exactly the
  candidate keys that have no other candidate key as a strict ancestor path: every
  candidate with a candidate above it is removed. The most general ancestor stays:
  every candidate key has a path prefix (itself or an ancestor) among the returned
  keys. The candidate keys are the keys of the query-capable filters and, when the
  sequence is empty or holds a filter that is not query-capable, the root key
  \<^verbatim>\<open>KvdbKey\<close> as well.
\<close>

theorem derive_removes_descendants:
  assumes "snd (getKeysFromFilters S fs) = Inr res"
  shows "keySet res =
           {k \<in> recordedCandidates S fs. \<not> (\<exists>a\<in>recordedCandidates S fs. isAncestorPath a k)} \<and>
         (\<forall>k\<in>recordedCandidates S fs. \<exists>a\<in>keySet res. isPathPrefix a k)"
  using getKeys_keySet_wf [OF assms] kept_ancestor_exists [OF assms]
  unfolding set_candidateKeys_recorded by simp

text \<open>
  The example of the spec: a resource type filter for Volume and an alert type filter
  for type 5 on Volume. The result keeps \<open>alerts/Volume\<close> and drops \<open>alerts/Volume/5\<close>.
\<close>

theorem derive_removes_descendants_witness:
  "snd (getKeysFromFilters ResourceType_String
          [\<lparr>filterType = QueryResourceTypeFilter, filterValue = ResourceTypeValue Volume\<rparr>,
           \<lparr>filterType = QueryAlertTypeFilter,
            filterValue = AlertInfoValue \<lparr>alertType = 5, resourceType = Volume, resourceID = []\<rparr>\<rparr>])
     = Inr [(''alerts/Volume'', True)] \<and>
   recordedCandidates ResourceType_String
          [\<lparr>filterType = QueryResourceTypeFilter, filterValue = ResourceTypeValue Volume\<rparr>,
           \<lparr>filterType = QueryAlertTypeFilter,
            filterValue = AlertInfoValue \<lparr>alertType = 5, resourceType = Volume, resourceID = []\<rparr>\<rparr>]
     = {''alerts/Volume'', ''alerts/Volume/5''} \<and>
   isAncestorPath ''alerts/Volume'' ''alerts/Volume/5'' \<and>
   keySet [(''alerts/Volume'', True)] =
     {k \<in> {''alerts/Volume'', ''alerts/Volume/5''}.
        \<not> (\<exists>a\<in>{''alerts/Volume'', ''alerts/Volume/5''}. isAncestorPath a k)}"
proof -
  let ?fs = "[\<lparr>filterType = QueryResourceTypeFilter, filterValue = ResourceTypeValue Volume\<rparr>,
              \<lparr>filterType = QueryAlertTypeFilter,
               filterValue = AlertInfoValue \<lparr>alertType = 5, resourceType = Volume, resourceID = []\<rparr>\<rparr>]"
  have run: "snd (getKeysFromFilters ResourceType_String ?fs) = Inr [(''alerts/Volume'', True)]"
    by (simp add: eval_defs)
  have cand: "recordedCandidates ResourceType_String ?fs = {''alerts/Volume'', ''alerts/Volume/5''}"
    by (simp add: recordedCandidates_def queryKeys_def queryCapable_def eval_defs)
  have anc: "isAncestorPath ''alerts/Volume'' ''alerts/Volume/5''"
    by (simp add: isAncestorPath_def)
  show ?thesis
    using derive_removes_descendants [OF run] run cand anc by simp
qed

text \<open>
  The claim as stated fails, the candidates being the keys of the query-capable
  filters: with a Count filter added to the example, the result is the root key alone,
  and the most general candidate \<open>alerts/Volume\<close> is not retained.
\<close>

theorem derive_removes_descendants_counterexample:
  "snd (getKeysFromFilters ResourceType_String
          [\<lparr>filterType = QueryResourceTypeFilter, filterValue = ResourceTypeValue Volume\<rparr>,
           \<lparr>filterType = QueryAlertTypeFilter,
            filterValue = AlertInfoValue \<lparr>alertType = 5, resourceType = Volume, resourceID = []\<rparr>\<rparr>,
           \<lparr>filterType = CountFilter, filterValue = Int64Value 3\<rparr>])
     = Inr [(''alerts'', True)] \<and>
   set (queryKeys ResourceType_String
          [\<lparr>filterType = QueryResourceTypeFilter, filterValue = ResourceTypeValue Volume\<rparr>,
           \<lparr>filterType = QueryAlertTypeFilter,
            filterValue = AlertInfoValue \<lparr>alertType = 5, resourceType = Volume, resourceID = []\<rparr>\<rparr>,
           \<lparr>filterType = CountFilter, filterValue = Int64Value 3\<rparr>])
     = {''alerts/Volume'', ''alerts/Volume/5''} \<and>
   isAncestorPath ''alerts/Volume'' ''alerts/Volume/5'' \<and>
   \<not> isAncestorPath ''alerts/Volume/5'' ''alerts/Volume'' \<and>
   ''alerts/Volume'' \<notin> keySet [(''alerts'', True)]"
  by (simp add: queryKeys_def queryCapable_def eval_defs)

text \<open>
  C4. Whenever key derivation succeeds, no key of the result is a strict ancestor
  path of another key of the result.
\<close>

theorem derive_no_overlap:
  assumes "snd (getKeysFromFilters S fs) = Inr res"
  shows "\<forall>a\<in>keySet res. \<forall>k\<in>keySet res. \<not> isAncestorPath a k"
  unfolding getKeys_keySet_wf [OF assms] by blast

text \<open>Two filters on different sub trees: both keys stay, neither is above the other.\<close>

theorem derive_no_overlap_witness:
  "snd (getKeysFromFilters ResourceType_String
          [\<lparr>filterType = QueryResourceIDFilter,
            filterValue = AlertInfoValue \<lparr>alertType = 5, resourceType = Volume, resourceID = ''vol1''\<rparr>\<rparr>,
           \<lparr>filterType = QueryAlertTypeFilter,
            filterValue = AlertInfoValue \<lparr>alertType = 255, resourceType = Node, resourceID = []\<rparr>\<rparr>])
     = Inr [(''alerts/Node/ff'', True), (''alerts/Volume/5/vol1'', True)] \<and>
   \<not> isAncestorPath ''alerts/Node/ff'' ''alerts/Volume/5/vol1'' \<and>
   \<not> isAncestorPath ''alerts/Volume/5/vol1'' ''alerts/Node/ff''"
proof -
  let ?fs = "[\<lparr>filterType = QueryResourceIDFilter,
            filterValue = AlertInfoValue \<lparr>alertType = 5, resourceType = Volume, resourceID = ''vol1''\<rparr>\<rparr>,
           \<lparr>filterType = QueryAlertTypeFilter,
            filterValue = AlertInfoValue \<lparr>alertType = 255, resourceType = Node, resourceID = []\<rparr>\<rparr>]"
  have run: "snd (getKeysFromFilters ResourceType_String ?fs)
      = Inr [(''alerts/Node/ff'', True), (''alerts/Volume/5/vol1'', True)]"
    by (simp add: eval_defs)
  show ?thesis
    using derive_no_overlap [OF run] run by (simp add: keySet_def)
qed

text \<open>
  C10. Whenever key derivation returns without error, the map it returns is not
  empty: it holds at least one key.
\<close>

theorem derive_result_not_empty:
  assumes "snd (getKeysFromFilters S fs) = Inr res"
  shows "res \<noteq> [] \<and> keySet res \<noteq> {}"
proof -
  have "candidateKeys S fs \<noteq> []"
  proof (cases fs)
    case Nil
    then show ?thesis by (simp add: candidateKeys_def)
  next
    case (Cons f fs')
    then obtain k where "filterKey S f = Inr k"
      using getKeys_Inr(4) [OF assms] by auto
    then show ?thesis using Cons by (simp add: candidateKeys_def filterKeys_Cons)
  qed
  then obtain k where "k \<in> set (candidateKeys S fs)"
    by (cases "candidateKeys S fs") auto
  then obtain a where "a \<in> keySet res"
    using kept_ancestor_exists [OF assms] by blast
  then show ?thesis by (auto simp: keySet_def)
qed

theorem derive_result_not_empty_witness:
  "snd (getKeysFromFilters ResourceType_String
          [\<lparr>filterType = QueryResourceTypeFilter, filterValue = ResourceTypeValue Node\<rparr>])
     = Inr [(''alerts/Node'', True)] \<and>
   [(''alerts/Node'', True)] \<noteq> [] \<and> keySet [(''alerts/Node'', True)] \<noteq> {}"
proof -
  have run: "snd (getKeysFromFilters ResourceType_String
          [\<lparr>filterType = QueryResourceTypeFilter, filterValue = ResourceTypeValue Node\<rparr>])
     = Inr [(''alerts/Node'', True)]"
    by (simp add: eval_defs)
  show ?thesis using derive_result_not_empty [OF run] run by simp
qed

text \<open>
  A filter of a kind that is not query-capable has the key \<^verbatim>\<open>KvdbKey\<close>, and a map that
  holds only \<^verbatim>\<open>KvdbKey\<close> passes both loops unchanged.
\<close>

lemma filterKey_not_query: "\<not> queryCapable (filterType f) \<Longrightarrow> filterKey S f = Inr KvdbKey"
  by (simp add: filterKey_def queryCapable_def GetFilterType_def Let_def)

lemma collectKeys_root:
  "\<forall>f\<in>set fs. filterKey S f = Inr KvdbKey \<Longrightarrow>
   collectKeys S fs [(KvdbKey, True)] = Inr [(KvdbKey, True)]"
  by (induction fs) (simp_all add: Let_def)

lemma removeSubTrees_root: "removeSubTrees [(KvdbKey, True)] = [(KvdbKey, True)]"
  by (simp add: removeSubTrees_def inSubTree.simps KvdbKey_def Split_def Trim_def TrimLeft_def
      TrimRight_def lookupKey_def)

text \<open>
  C5. For a filter sequence with no query-capable filter, the empty sequence and a
  sequence of Custom filters included, key derivation succeeds and returns the map
  whose only key is the namespace root \<^verbatim>\<open>KvdbKey\<close>.
\<close>

theorem derive_no_query_filter_root:
  assumes "\<forall>f\<in>set fs. \<not> queryCapable (filterType f)"
  shows "snd (getKeysFromFilters S fs) = Inr [(KvdbKey, True)]"
proof (cases "sortFilters fs")
  case Nil
  then have "fs = []" by (simp add: sortFilters_Nil_iff)
  then show ?thesis by (simp add: getKeysFromFilters_def removeSubTrees_root)
next
  case (Cons f fs')
  have all: "\<forall>g\<in>set (f # fs'). filterKey S g = Inr KvdbKey"
    using assms filterKey_not_query set_sortFilters [of fs] Cons by metis
  then have "collectKeys S (f # fs') [] = collectKeys S fs' [(KvdbKey, True)]"
    by (simp add: Let_def lookupKey_def)
  also have "\<dots> = Inr [(KvdbKey, True)]"
    using all by (intro collectKeys_root) simp
  finally show ?thesis
    using Cons sortFilters_Nil_iff [of fs]
    by (auto simp: getKeysFromFilters_def Let_def removeSubTrees_root)
qed

theorem derive_no_query_filter_root_witness:
  "snd (getKeysFromFilters ResourceType_String
          [\<lparr>filterType = CustomFilter, filterValue = FuncValue failingPredicate\<rparr>,
           \<lparr>filterType = CountFilter, filterValue = Int64Value 3\<rparr>])
     = Inr [(''alerts'', True)] \<and>
   snd (getKeysFromFilters ResourceType_String []) = Inr [(''alerts'', True)]"
  using derive_no_query_filter_root
          [of "[\<lparr>filterType = CustomFilter, filterValue = FuncValue failingPredicate\<rparr>,
                \<lparr>filterType = CountFilter, filterValue = Int64Value 3\<rparr>]" ResourceType_String]
        derive_no_query_filter_root [of "[]" ResourceType_String]
  by (simp add: queryCapable_def FilterType_defs KvdbKey_def)

text \<open>
  The result of key derivation, as a set of map entries, depends only on the set of
  filters given: not on their order, and so not on how \<^verbatim>\<open>sort.Sort\<close> places filters
  of the same kind, nor on the order in which Go ranges over the map.
\<close>

lemma getKeys_set_determined:
  assumes "set fs = set gs"
  shows "map_sum id set (snd (getKeysFromFilters S fs)) =
         map_sum id set (snd (getKeysFromFilters S gs))"
proof -
  have empty: "fs = [] \<longleftrightarrow> gs = []" using assms by (metis set_empty)
  have cand: "set (candidateKeys S fs) = set (candidateKeys S gs)"
    using assms empty by (simp add: candidateKeys_def set_filterKeys)
  show ?thesis
  proof (cases "snd (getKeysFromFilters S fs)")
    case (Inl e)
    have "\<not> (\<exists>res. snd (getKeysFromFilters S gs) = Inr res)"
    proof
      assume "\<exists>res. snd (getKeysFromFilters S gs) = Inr res"
      then obtain res where "snd (getKeysFromFilters S gs) = Inr res" by blast
      then have "\<forall>f\<in>set fs. \<exists>k. filterKey S f = Inr k"
        using getKeys_Inr(4) assms by blast
      then show False using getKeys_total [of fs S] Inl by auto
    qed
    then obtain e' where "snd (getKeysFromFilters S gs) = Inl e'"
      by (cases "snd (getKeysFromFilters S gs)") auto
    then show ?thesis using Inl getKeys_Inl by (metis map_sum.simps(1))
  next
    case (Inr res)
    then have "\<forall>f\<in>set gs. \<exists>k. filterKey S f = Inr k"
      using getKeys_Inr(4) assms by blast
    then obtain res' where r': "snd (getKeysFromFilters S gs) = Inr res'"
      using getKeys_total by blast
    have "keySet res = keySet res'"
      using getKeys_Inr(1) [OF Inr] getKeys_Inr(1) [OF r'] cand by simp
    then have "set res = set res'"
      using set_allTrue [OF getKeys_Inr(2) [OF Inr]] set_allTrue [OF getKeys_Inr(2) [OF r']]
      by simp
    then show ?thesis using Inr r' by simp
  qed
qed

text \<open>
  C6. Two filter sequences that are equal as multisets give the same result: the same
  error, or maps with the same entries.
\<close>

theorem derive_order_independent:
  assumes "mset fs = mset gs"
  shows "map_sum id set (snd (getKeysFromFilters S fs)) =
         map_sum id set (snd (getKeysFromFilters S gs))"
  using assms getKeys_set_determined mset_eq_setD by blast

theorem derive_order_independent_witness:
  "mset [\<lparr>filterType = QueryAlertTypeFilter,
          filterValue = AlertInfoValue \<lparr>alertType = 255, resourceType = Node, resourceID = []\<rparr>\<rparr>,
         \<lparr>filterType = QueryResourceTypeFilter, filterValue = ResourceTypeValue Volume\<rparr>]
   = mset [\<lparr>filterType = QueryResourceTypeFilter, filterValue = ResourceTypeValue Volume\<rparr>,
           \<lparr>filterType = QueryAlertTypeFilter,
            filterValue = AlertInfoValue \<lparr>alertType = 255, resourceType = Node, resourceID = []\<rparr>\<rparr>] \<and>
   map_sum id set (snd (getKeysFromFilters ResourceType_String
     [\<lparr>filterType = QueryAlertTypeFilter,
       filterValue = AlertInfoValue \<lparr>alertType = 255, resourceType = Node, resourceID = []\<rparr>\<rparr>,
      \<lparr>filterType = QueryResourceTypeFilter, filterValue = ResourceTypeValue Volume\<rparr>]))
   = map_sum id set (snd (getKeysFromFilters ResourceType_String
     [\<lparr>filterType = QueryResourceTypeFilter, filterValue = ResourceTypeValue Volume\<rparr>,
      \<lparr>filterType = QueryAlertTypeFilter,
       filterValue = AlertInfoValue \<lparr>alertType = 255, resourceType = Node, resourceID = []\<rparr>\<rparr>]))"
proof -
  let ?a = "\<lparr>filterType = QueryAlertTypeFilter,
             filterValue = AlertInfoValue \<lparr>alertType = 255, resourceType = Node, resourceID = []\<rparr>\<rparr>"
  let ?b = "\<lparr>filterType = QueryResourceTypeFilter, filterValue = ResourceTypeValue Volume\<rparr>"
  have m: "mset [?a, ?b] = mset [?b, ?a]" by simp
  show ?thesis
    using derive_order_independent [OF m, of ResourceType_String] m by simp
qed

lemma fst_getKeys: "fst (getKeysFromFilters S fs) = sortFilters fs"
  by (simp add: getKeysFromFilters_def Let_def sortFilters_def split: sum.splits)

text \<open>
  C9, as amended. Key derivation sorts the caller's filter slice in place: after the
  call the slice holds the same filters, ordered by filter kind. A second call on the
  slice so left returns the same result as the first. Match with a filter whose kind is
  not Custom leaves the alert as it was.
\<close>

theorem derive_sorts_callers_slice:
  "mset (fst (getKeysFromFilters S fs)) = mset fs \<and>
   sorted (map GetFilterType (fst (getKeysFromFilters S fs))) \<and>
   map_sum id set (snd (getKeysFromFilters S (fst (getKeysFromFilters S fs)))) =
     map_sum id set (snd (getKeysFromFilters S fs)) \<and>
   (filterType f \<noteq> CustomFilter \<longrightarrow> fst (Match f alert) = alert)"
proof -
  have "set (sortFilters fs) = set fs" by (rule set_sortFilters)
  then have "map_sum id set (snd (getKeysFromFilters S (sortFilters fs))) =
     map_sum id set (snd (getKeysFromFilters S fs))"
    by (rule getKeys_set_determined)
  then show ?thesis
    using Match_not_Custom(3) [of f alert] by (simp add: fst_getKeys sortFilters_def)
qed

text \<open>
  The claim as stated fails: the caller's slice of a resource type filter followed
  by a Count filter comes back with the Count filter first.
\<close>

theorem derive_sorts_callers_slice_counterexample:
  "fst (getKeysFromFilters ResourceType_String
          [\<lparr>filterType = QueryResourceTypeFilter, filterValue = ResourceTypeValue Volume\<rparr>,
           \<lparr>filterType = CountFilter, filterValue = Int64Value 3\<rparr>])
     = [\<lparr>filterType = CountFilter, filterValue = Int64Value 3\<rparr>,
        \<lparr>filterType = QueryResourceTypeFilter, filterValue = ResourceTypeValue Volume\<rparr>] \<and>
   fst (getKeysFromFilters ResourceType_String
          [\<lparr>filterType = QueryResourceTypeFilter, filterValue = ResourceTypeValue Volume\<rparr>,
           \<lparr>filterType = CountFilter, filterValue = Int64Value 3\<rparr>])
     \<noteq> [\<lparr>filterType = QueryResourceTypeFilter, filterValue = ResourceTypeValue Volume\<rparr>,
        \<lparr>filterType = CountFilter, filterValue = Int64Value 3\<rparr>]"
  by (simp add: fst_getKeys sortFilters_def GetFilterType_def FilterType_defs)

theorem derive_sorts_callers_slice_witness:
  "fst (getKeysFromFilters ResourceType_String
          [\<lparr>filterType = QueryResourceTypeFilter, filterValue = ResourceTypeValue Volume\<rparr>,
           \<lparr>filterType = CountFilter, filterValue = Int64Value 3\<rparr>])
     = [\<lparr>filterType = CountFilter, filterValue = Int64Value 3\<rparr>,
        \<lparr>filterType = QueryResourceTypeFilter, filterValue = ResourceTypeValue Volume\<rparr>] \<and>
   sorted (map GetFilterType
        [\<lparr>filterType = CountFilter, filterValue = Int64Value 3\<rparr>,
         \<lparr>filterType = QueryResourceTypeFilter, filterValue = ResourceTypeValue (Volume :: ResourceType)\<rparr>]) \<and>
   filterType (\<lparr>filterType = CountFilter, filterValue = Int64Value 3\<rparr> :: ResourceType filter)
     \<noteq> CustomFilter \<and>
   fst (Match \<lparr>filterType = CountFilter, filterValue = Int64Value 3\<rparr> exampleAlert) = exampleAlert"
  using derive_sorts_callers_slice
          [of ResourceType_String
              "[\<lparr>filterType = QueryResourceTypeFilter, filterValue = ResourceTypeValue Volume\<rparr>,
                \<lparr>filterType = CountFilter, filterValue = Int64Value 3\<rparr>]"
              "\<lparr>filterType = CountFilter, filterValue = Int64Value 3\<rparr>" exampleAlert]
  by (simp add: fst_getKeys sortFilters_def GetFilterType_def FilterType_defs)

text \<open>
  The key of a QueryResourceID filter: alert type before resource id, for every
  payload.
\<close>

lemma filterKey_QueryResourceID:
  "filterKey S \<lparr>filterType = QueryResourceIDFilter, filterValue = AlertInfoValue v\<rparr> =
     Inr (Join [KvdbKey, S (resourceType v), FormatInt (sint (alertType v)) 16, resourceID v])"
  by (simp add: filterKey_def GetFilterType_def GetValue_def FilterType_defs)

text \<open>
  C2. Evaluation at the failing input: for a QueryResourceID filter for alert type 5
  on the volume \<open>vol1\<close>, the derived key lists the alert type before the resource
  id, \<open>alerts/Volume/5/vol1\<close>. The tree documented in filter.go lists the resource id
  first: the matching alert is at \<open>alerts/Volume/vol1/5/data\<close>, and the derived key
  is no path prefix of it.
\<close>

theorem derive_QueryResourceID_component_order:
  "snd (getKeysFromFilters ResourceType_String
          [\<lparr>filterType = QueryResourceIDFilter,
            filterValue = AlertInfoValue \<lparr>alertType = 5, resourceType = Volume, resourceID = ''vol1''\<rparr>\<rparr>])
     = Inr [(''alerts/Volume/5/vol1'', True)] \<and>
   pathElems ''alerts/Volume/5/vol1'' =
     [KvdbKey, ResourceType_String Volume, FormatInt 5 16, ''vol1''] \<and>
   snd (Match \<lparr>filterType = QueryResourceIDFilter,
                filterValue = AlertInfoValue \<lparr>alertType = 5, resourceType = Volume, resourceID = ''vol1''\<rparr>\<rparr>
          exampleAlert) = (True, None) \<and>
   alertKeyPath ResourceType_String exampleAlert = ''alerts/Volume/vol1/5/data'' \<and>
   \<not> isPathPrefix ''alerts/Volume/5/vol1'' (alertKeyPath ResourceType_String exampleAlert)"
  by (simp add: eval_defs Match_def exampleAlert_def alertKeyPath_def)

text \<open>
  C3. Evaluation at the failing input: the alert satisfies the QueryAlertType filter
  for type 5 on Volume, key derivation succeeds with the single key
  \<open>alerts/Volume/5\<close>, and that key is no path prefix of the alert's place in the
  documented tree, \<open>alerts/Volume/vol1/5/data\<close>.
\<close>

theorem derive_QueryAlertType_not_prefix:
  "snd (getKeysFromFilters ResourceType_String
          [\<lparr>filterType = QueryAlertTypeFilter,
            filterValue = AlertInfoValue \<lparr>alertType = 5, resourceType = Volume, resourceID = []\<rparr>\<rparr>])
     = Inr [(''alerts/Volume/5'', True)] \<and>
   snd (Match \<lparr>filterType = QueryAlertTypeFilter,
                filterValue = AlertInfoValue \<lparr>alertType = 5, resourceType = Volume, resourceID = []\<rparr>\<rparr>
          exampleAlert) = (True, None) \<and>
   alertKeyPath ResourceType_String exampleAlert = ''alerts/Volume/vol1/5/data'' \<and>
   \<not> isPathPrefix ''alerts/Volume/5'' (alertKeyPath ResourceType_String exampleAlert)"
  by (simp add: eval_defs Match_def exampleAlert_def alertKeyPath_def)


end
